theory Spec2Isabelle
  imports Main "HOL-Library.Word" "HOL-Library.Char_ord" "HOL-Library.List_Lexorder"
begin

section \<open>The arger command-line parser (include/arger.hpp)\<close>

subsection \<open>Errors and argument values\<close>

datatype errors_e =
    DUPLICATE_DEFINITION
  | MISSING_REQUIRED_ARGUMENT
  | INCORRECT_ARGUMENT_TYPE
  | EXPECTED_VALUE

fun error_to_string :: "errors_e \<Rightarrow> string" where
  "error_to_string DUPLICATE_DEFINITION = ''Duplicate definition''"
| "error_to_string MISSING_REQUIRED_ARGUMENT = ''Missing required argument''"
| "error_to_string INCORRECT_ARGUMENT_TYPE = ''Incorrect argument type''"
| "error_to_string EXPECTED_VALUE = ''Expected value''"

text \<open>
  \<open>arg_t\<close> is \<open>std::variant<std::string, int64_t, double, bool>\<close>. Floating-point
  formatting is not modelled: the \<open>double\<close> alternative carries the text that
  \<open>std::to_string\<close> yields for it.
\<close>

datatype arg_t =
    ArgString string
  | ArgInt64 "64 word"
  | ArgDouble string
  | ArgBool bool

definition digit_char :: "nat \<Rightarrow> char" where
  "digit_char d = ''0123456789'' ! d"

fun dec_of_nat :: "nat \<Rightarrow> string" where
  "dec_of_nat n = (if n < 10 then [digit_char n] else dec_of_nat (n div 10) @ [digit_char (n mod 10)])"

declare dec_of_nat.simps [simp del]

definition dec_of_int :: "int \<Rightarrow> string" where
  "dec_of_int k = (if k < 0 then CHR ''-'' # dec_of_nat (nat (- k)) else dec_of_nat (nat k))"

text \<open>
  \<open>to_string\<close>: the string alternative as it is, the integer in decimal, and the
  \<open>bool\<close> through \<open>std::to_string\<close>, which promotes it to \<open>int\<close>: \<open>1\<close> or \<open>0\<close>.
\<close>

fun to_string :: "arg_t \<Rightarrow> string" where
  "to_string (ArgString str) = str"
| "to_string (ArgInt64 w) = dec_of_int (sint w)"
| "to_string (ArgDouble rendering) = rendering"
| "to_string (ArgBool b) = dec_of_int (if b then 1 else 0)"

subsection \<open>The parser's state\<close>

record argument_s =
  req_and_found :: "bool option"
  value_s :: string
  is_flag :: bool

record arg_def_s =
  args :: "string list"
  description :: string
  default_value :: string
  allocated_arg :: nat

text \<open>
  The members of \<open>arger_c\<close>. A \<open>std::set<std::string>\<close> is the list of its elements in
  iteration order. The \<open>argument_s\<close> objects made by \<open>new\<close> live in \<open>heap\<close>, a store
  from addresses to cells, and \<open>heap_next\<close> is the address the next \<open>new\<close> returns.
  A callback member is the flag that a callable is stored; what calling it does is
  recorded: \<open>error_calls\<close> lists the arguments of each call of \<open>error_cb_\<close>,
  \<open>post_help_calls\<close> counts the calls of \<open>post_help_cb_\<close>, and \<open>cout\<close> is the text
  written to standard output.
\<close>

record arger_c =
  post_help_cb :: bool
  error_cb :: bool
  auto_help_enable :: bool
  unmatchd_args :: "string list"
  argument_defs :: "arg_def_s list"
  arguments_map :: "string \<rightharpoonup> nat"
  program_name :: string
  heap :: "nat \<Rightarrow> argument_s"
  heap_next :: nat
  error_calls :: "(errors_e \<times> string) list"
  post_help_calls :: nat
  cout :: string

text \<open>The constructor of a \<open>std::set<std::string>\<close> from an initializer list.\<close>

fun set_insert :: "string \<Rightarrow> string list \<Rightarrow> string list" where
  "set_insert a [] = [a]"
| "set_insert a (b # bs) = (if a = b then b # bs else if a < b then a # b # bs else b # set_insert a bs)"

definition std_set :: "string list \<Rightarrow> string list" where
  "std_set xs = foldl (\<lambda>S a. set_insert a S) [] xs"

definition new_arger :: "bool \<Rightarrow> arger_c" where
  "new_arger cb =
     \<lparr> post_help_cb = cb, error_cb = False, auto_help_enable = True, unmatchd_args = [],
       argument_defs = [], arguments_map = Map.empty, program_name = [],
       heap = (\<lambda>_. \<lparr> req_and_found = None, value_s = [], is_flag = False \<rparr>), heap_next = 0,
       error_calls = [], post_help_calls = 0, cout = [] \<rparr>"

definition set_error_cb :: "bool \<Rightarrow> arger_c \<Rightarrow> arger_c" where
  "set_error_cb cb s = s\<lparr> error_cb := cb \<rparr>"

definition set_auto_help :: "bool \<Rightarrow> arger_c \<Rightarrow> arger_c" where
  "set_auto_help enable s = s\<lparr> auto_help_enable := enable \<rparr>"

definition get_program_name :: "arger_c \<Rightarrow> string" where
  "get_program_name s = program_name s"

definition get_unmatched_args :: "arger_c \<Rightarrow> string list" where
  "get_unmatched_args s = unmatchd_args s"

text \<open>\<open>if (error_cb_) error_cb_(e, ctx);\<close> and \<open>if (post_help_cb_) post_help_cb_();\<close>\<close>

definition call_error_cb :: "errors_e \<Rightarrow> string \<Rightarrow> arger_c \<Rightarrow> arger_c" where
  "call_error_cb e ctx s =
     (if error_cb s then s\<lparr> error_calls := error_calls s @ [(e, ctx)] \<rparr> else s)"

definition call_post_help_cb :: "arger_c \<Rightarrow> arger_c" where
  "call_post_help_cb s =
     (if post_help_cb s then s\<lparr> post_help_calls := Suc (post_help_calls s) \<rparr> else s)"

subsection \<open>Registration\<close>

definition add_arg :: "string list \<Rightarrow> string \<Rightarrow> arg_t \<Rightarrow> bool \<Rightarrow> bool \<Rightarrow> arger_c \<Rightarrow> bool \<times> arger_c" where
  "add_arg arg descr dv required flag s =
     (case List.find (\<lambda>a. arguments_map s a \<noteq> None) arg of
        Some a \<Rightarrow> (False, call_error_cb DUPLICATE_DEFINITION a s)
      | None \<Rightarrow>
          (let argument = heap_next s;
               cell = \<lparr> req_and_found = (if required then Some False else None),
                        value_s = to_string dv, is_flag = flag \<rparr>;
               d = \<lparr> args = arg, description = descr, default_value = to_string dv,
                     allocated_arg = argument \<rparr>
           in (True, s\<lparr> heap := (heap s)(argument := cell),
                        heap_next := Suc argument,
                        argument_defs := argument_defs s @ [d],
                        arguments_map := fold (\<lambda>a m. m(a \<mapsto> argument)) arg (arguments_map s) \<rparr>)))"

definition add_argument :: "string list \<Rightarrow> string \<Rightarrow> arg_t \<Rightarrow> bool \<Rightarrow> arger_c \<Rightarrow> bool \<times> arger_c" where
  "add_argument arg descr dv required s = add_arg arg descr dv required False s"

definition add_flag :: "string list \<Rightarrow> string \<Rightarrow> bool \<Rightarrow> bool \<Rightarrow> arger_c \<Rightarrow> bool \<times> arger_c" where
  "add_flag arg descr dv required s = add_arg arg descr (ArgBool dv) required True s"

subsection \<open>Help\<close>

definition endl :: string where
  "endl = [CHR 0x0A]"

definition help_line :: "arger_c \<Rightarrow> arg_def_s \<Rightarrow> string" where
  "help_line s d =
     concat (map (\<lambda>a. a @ '' '') (args d))
     @ [CHR 0x09] @ ''desc:'' @ description d
     @ [CHR 0x09] @ ''default:'' @ (if default_value d = [] then ''<none>'' else default_value d)
     @ [CHR 0x09]
     @ (if req_and_found (heap s (allocated_arg d)) \<noteq> None then ''<required>'' else ''<optional>'')
     @ [CHR 0x0A] @ endl"

definition help_text :: "arger_c \<Rightarrow> string" where
  "help_text s =
     ''Usage: '' @ program_name s @ '' [options]'' @ [CHR 0x0A] @ endl
     @ ''Options:'' @ [CHR 0x0A] @ endl
     @ concat (map (help_line s) (argument_defs s))"

text \<open>\<open>print_help\<close> writes the text and then calls the post-help callback.\<close>

definition print_help :: "arger_c \<Rightarrow> arger_c" where
  "print_help s = call_post_help_cb (s\<lparr> cout := cout s @ help_text s \<rparr>)"

subsection \<open>Parsing\<close>

text \<open>
  The handlers reach the cell of a token through \<open>arguments_map_[arg]\<close>. On a key that
  is not there, that would insert a null pointer, and the access through it is
  undefined: that outcome is \<open>None\<close>. \<open>store_value\<close> is the assignment
  \<open>arguments_map_[arg]->value = v\<close> of both handlers.
\<close>

definition conditionally_mark_found :: "string \<Rightarrow> arger_c \<Rightarrow> arger_c option" where
  "conditionally_mark_found arg s =
     (case arguments_map s arg of
        None \<Rightarrow> None
      | Some p \<Rightarrow>
          Some (if req_and_found (heap s p) \<noteq> None
                then s\<lparr> heap := (heap s)(p := (heap s p)\<lparr> req_and_found := Some True \<rparr>) \<rparr>
                else s))"

definition store_value :: "string \<Rightarrow> string \<Rightarrow> arger_c \<Rightarrow> arger_c option" where
  "store_value arg v s =
     (case arguments_map s arg of
        None \<Rightarrow> None
      | Some p \<Rightarrow> Some (s\<lparr> heap := (heap s)(p := (heap s p)\<lparr> value_s := v \<rparr>) \<rparr>))"

definition handle_flag :: "string \<Rightarrow> arger_c \<Rightarrow> (bool \<times> arger_c) option" where
  "handle_flag arg s =
     (case store_value arg ''true'' s of
        None \<Rightarrow> None
      | Some s1 \<Rightarrow>
          (case conditionally_mark_found arg s1 of
             None \<Rightarrow> None
           | Some s2 \<Rightarrow> Some (True, s2)))"

text \<open>
  \<open>handle_argument\<close> returns its result, the index (which it takes by reference and
  increments when it consumes the value) and the state. \<open>parse\<close> calls it with
  \<open>idx < args.size()\<close> only.
\<close>

definition handle_argument :: "string list \<Rightarrow> nat \<Rightarrow> arger_c \<Rightarrow> (bool \<times> nat \<times> arger_c) option" where
  "handle_argument argv idx s =
     (let arg = argv ! idx in
      if idx + 1 \<ge> length argv then Some (False, idx, call_error_cb EXPECTED_VALUE arg s)
      else
        (let v = argv ! (idx + 1) in
         case store_value arg v s of
           None \<Rightarrow> None
         | Some s1 \<Rightarrow>
             (case conditionally_mark_found arg s1 of
                None \<Rightarrow> None
              | Some s2 \<Rightarrow> Some (True, idx + 1, s2))))"

text \<open>The dispatch of one matched token: \<open>arg->is_flag ? handle_flag(..) : handle_argument(..)\<close>.\<close>

definition dispatch :: "string list \<Rightarrow> nat \<Rightarrow> nat \<Rightarrow> arger_c \<Rightarrow> (bool \<times> nat \<times> arger_c) option" where
  "dispatch argv i p s =
     (if is_flag (heap s p)
      then (case handle_flag (argv ! i) s of None \<Rightarrow> None | Some (ok, s') \<Rightarrow> Some (ok, i, s'))
      else handle_argument argv i s)"

text \<open>The scan \<open>for (i = 0; i < args.size(); ++i)\<close>, from index \<open>i\<close>.\<close>

function parse_loop :: "string list \<Rightarrow> nat \<Rightarrow> arger_c \<Rightarrow> (bool \<times> arger_c) option" where
  "parse_loop argv i s =
     (if i < length argv then
        (if auto_help_enable s \<and> (argv ! i = ''-h'' \<or> argv ! i = ''--help'')
         then parse_loop argv (Suc i) (call_post_help_cb (print_help s))
         else
           (case arguments_map s (argv ! i) of
              None \<Rightarrow> parse_loop argv (Suc i) (s\<lparr> unmatchd_args := unmatchd_args s @ [argv ! i] \<rparr>)
            | Some p \<Rightarrow>
                (case dispatch argv i p s of
                   None \<Rightarrow> None
                 | Some (ok, i', s') \<Rightarrow>
                     if ok then parse_loop argv (Suc i') s' else Some (False, s'))))
      else Some (True, s))"
  by pat_completeness auto
termination
proof (relation "measure (\<lambda>(argv, i, s). length argv - i)")
  show "wf (measure (\<lambda>(argv, i, s). length argv - i))" by simp
next
  fix argv :: "string list" and i :: nat and s :: arger_c
  assume "i < length argv"
  then show "((argv, Suc i, call_post_help_cb (print_help s)), (argv, i, s))
             \<in> measure (\<lambda>(argv, i, s). length argv - i)"
    by simp
next
  fix argv :: "string list" and i :: nat and s :: arger_c
  assume "i < length argv"
  then show "((argv, Suc i, s\<lparr> unmatchd_args := unmatchd_args s @ [argv ! i] \<rparr>), (argv, i, s))
             \<in> measure (\<lambda>(argv, i, s). length argv - i)"
    by simp
next
  fix argv :: "string list" and i :: nat and s :: arger_c and p x2 ok y i' s'
  assume "i < length argv" and "dispatch argv i p s = Some x2"
     and "(ok, y) = x2" and "(i', s') = y" and "ok"
  then have "dispatch argv i p s = Some (True, i', s')" by auto
  then have "i \<le> i' \<and> i' < length argv"
    using \<open>i < length argv\<close>
    by (auto simp: dispatch_def handle_flag_def handle_argument_def Let_def
             split: if_splits option.splits)
  then show "((argv, Suc i', s'), (argv, i, s)) \<in> measure (\<lambda>(argv, i, s). length argv - i)"
    by auto
qed

declare parse_loop.simps [simp del]

text \<open>The check that every required argument was found, over \<open>argument_defs_\<close> in order.\<close>

fun check_required :: "arg_def_s list \<Rightarrow> arger_c \<Rightarrow> bool \<times> arger_c" where
  "check_required [] s = (True, s)"
| "check_required (d # ds) s =
     (if req_and_found (heap s (allocated_arg d)) = Some False
      then (False, call_error_cb MISSING_REQUIRED_ARGUMENT (concat (map (\<lambda>a. a @ '' '') (args d))) s)
      else check_required ds s)"

text \<open>\<open>parse\<close>; \<open>args[0]\<close> of an empty vector is undefined, which is \<open>None\<close>.\<close>

definition parse :: "string list \<Rightarrow> arger_c \<Rightarrow> (bool \<times> arger_c) option" where
  "parse argv s =
     (case argv of
        [] \<Rightarrow> None
      | a0 # _ \<Rightarrow>
          (case parse_loop argv 0 (s\<lparr> program_name := a0 \<rparr>) of
             None \<Rightarrow> None
           | Some (ok, s') \<Rightarrow>
               if ok then Some (check_required (argument_defs s') s') else Some (False, s')))"

subsection \<open>Reading a value back\<close>

text \<open>
  \<open>get_arg<T>\<close> reads the stored text with \<open>ss >> val\<close>. The stream skips leading white
  space; if nothing is left, nothing is stored in \<open>val\<close>. For a \<open>std::string\<close>, \<open>val\<close>
  starts empty and receives the characters up to the next white space. For a \<open>bool\<close>
  (the stream has no \<open>boolalpha\<close>) the field is read as a decimal \<open>long\<close>: an optional
  sign and digits; a field without digits stores 0 (and sets \<open>failbit\<close>, which
  \<open>get_arg\<close> does not look at), and 0 is \<open>false\<close>, every other number \<open>true\<close>, also
  one that is out of range. So the \<open>bool\<close> is \<open>true\<close> when the field has a digit other
  than \<open>0\<close>. A \<open>bool\<close> that was never stored to is indeterminate.
\<close>

datatype 'a cxx_val = Indeterminate | Val 'a

definition isspace :: "char \<Rightarrow> bool" where
  "isspace c = (c = CHR '' '' \<or> c = CHR 0x09 \<or> c = CHR 0x0A \<or> c = CHR 0x0B \<or> c = CHR 0x0C \<or> c = CHR 0x0D)"

definition isdigit :: "char \<Rightarrow> bool" where
  "isdigit c = (c \<in> set ''0123456789'')"

definition extract_string :: "string \<Rightarrow> string" where
  "extract_string text = takeWhile (\<lambda>c. \<not> isspace c) (dropWhile isspace text)"

definition extract_bool :: "string \<Rightarrow> bool cxx_val" where
  "extract_bool text =
     (case dropWhile isspace text of
        [] \<Rightarrow> Indeterminate
      | c # cs \<Rightarrow>
          (let field = takeWhile isdigit (if c = CHR ''+'' \<or> c = CHR ''-'' then cs else c # cs)
           in Val (\<exists>d \<in> set field. d \<noteq> CHR ''0'')))"

definition get_arg_string :: "string \<Rightarrow> arger_c \<Rightarrow> string option" where
  "get_arg_string arg s =
     (case arguments_map s arg of
        None \<Rightarrow> None
      | Some p \<Rightarrow> Some (extract_string (value_s (heap s p))))"

definition get_arg_bool :: "string \<Rightarrow> arger_c \<Rightarrow> bool cxx_val option" where
  "get_arg_bool arg s =
     (case arguments_map s arg of
        None \<Rightarrow> None
      | Some p \<Rightarrow> Some (extract_bool (value_s (heap s p))))"

subsection \<open>What a step of the scan does\<close>

text \<open>
  A token is a help token when automatic help is on and it is \<open>-h\<close> or \<open>--help\<close>. A
  match of an alias writes the cell that the alias points to: the text, and the
  found state when the definition is required.
\<close>

definition is_help :: "arger_c \<Rightarrow> string \<Rightarrow> bool" where
  "is_help s t = (auto_help_enable s \<and> (t = ''-h'' \<or> t = ''--help''))"

definition cell_matched :: "string \<Rightarrow> argument_s \<Rightarrow> argument_s" where
  "cell_matched v c =
     (if req_and_found c \<noteq> None then c\<lparr> value_s := v, req_and_found := Some True \<rparr>
      else c\<lparr> value_s := v \<rparr>)"

definition match_at :: "nat \<Rightarrow> string \<Rightarrow> arger_c \<Rightarrow> arger_c" where
  "match_at p v s = s\<lparr> heap := (heap s)(p := cell_matched v (heap s p)) \<rparr>"

subsection \<open>Callers, and states that the statements speak of\<close>

text \<open>A caller that invokes \<open>parse\<close> twice on one parser.\<close>

definition parse_twice :: "string list \<Rightarrow> string list \<Rightarrow> arger_c \<Rightarrow> (bool \<times> bool \<times> arger_c) option" where
  "parse_twice argv1 argv2 s =
     (case parse argv1 s of
        None \<Rightarrow> None
      | Some (ok1, s1) \<Rightarrow>
          (case parse argv2 s1 of
             None \<Rightarrow> None
           | Some (ok2, s2) \<Rightarrow> Some (ok1, ok2, s2)))"

text \<open>
  A caller that registers a schema, one \<open>add_arg\<close> for each entry (aliases, description,
  default, required, flag), and then parses; it keeps every result.
\<close>

type_synonym registration = "string list \<times> string \<times> arg_t \<times> bool \<times> bool"

fun register_all :: "registration list \<Rightarrow> arger_c \<Rightarrow> bool list \<times> arger_c" where
  "register_all [] s = ([], s)"
| "register_all ((arg, descr, dv, required, flag) # rs) s =
     (case add_arg arg descr dv required flag s of
        (ok, s1) \<Rightarrow> (case register_all rs s1 of (oks, s2) \<Rightarrow> (ok # oks, s2)))"

definition session :: "registration list \<Rightarrow> string list \<Rightarrow> arger_c \<Rightarrow> (bool list \<times> bool \<times> arger_c) option" where
  "session regs argv s =
     (case register_all regs s of
        (oks, s1) \<Rightarrow>
          (case parse argv s1 of
             None \<Rightarrow> None
           | Some (ok, s2) \<Rightarrow> Some (oks, ok, s2)))"

text \<open>The state without the error callback and without the record of its calls.\<close>

definition without_error_cb :: "arger_c \<Rightarrow> arger_c" where
  "without_error_cb s = s\<lparr> error_cb := False, error_calls := [] \<rparr>"

text \<open>
  What registration keeps true of the state: every pointer in the alias index and in
  the registry is an allocated address, and each alias of a registered definition is
  indexed to the cell of that definition.
\<close>

definition arger_inv :: "arger_c \<Rightarrow> bool" where
  "arger_inv s =
     ((\<forall>a p. arguments_map s a = Some p \<longrightarrow> p < heap_next s)
      \<and> (\<forall>d \<in> set (argument_defs s).
            allocated_arg d < heap_next s
            \<and> (\<forall>a \<in> set (args d). arguments_map s a = Some (allocated_arg d))))"

text \<open>The context string of a missing required argument: each alias and a space.\<close>

definition concated :: "arg_def_s \<Rightarrow> string" where
  "concated d = concat (map (\<lambda>a. a @ '' '') (args d))"

text \<open>A parser with two required flags, \<open>-a\<close> and \<open>-b\<close>, and an error callback.\<close>

definition two_required :: arger_c where
  "two_required =
     snd (add_flag (std_set [''-b'']) ''second'' False True
            (snd (add_flag (std_set [''-a'']) ''first'' False True
                    (set_error_cb True (new_arger False)))))"

text \<open>A parser with one required value-bearing option, \<open>--name\<close>, and an error callback.\<close>

definition name_option :: arger_c where
  "name_option =
     snd (add_argument (std_set [''--name'']) ''name'' (ArgString ''x'') True
            (set_error_cb True (new_arger False)))"

text \<open>A parser with the flag of the tests, \<open>-b\<close> or \<open>--bool\<close>, and an error callback.\<close>

definition bool_flag :: arger_c where
  "bool_flag =
     snd (add_flag (std_set [''-b'', ''--bool'']) ''A bool'' False False
            (set_error_cb True (new_arger False)))"

text \<open>
  The unmatched tokens of an input, in the spec's words: the tokens, in input order,
  that are no help trigger, match no registered alias, and are not consumed as the
  value of an option. It is written from the spec, to be compared with what \<open>parse\<close>
  appends.
\<close>

fun spec_unmatched :: "arger_c \<Rightarrow> string list \<Rightarrow> string list" where
  "spec_unmatched s [] = []"
| "spec_unmatched s [t] =
     (if is_help s t then []
      else case arguments_map s t of None \<Rightarrow> [t] | Some p \<Rightarrow> [])"
| "spec_unmatched s (t # v # ts) =
     (if is_help s t then spec_unmatched s (v # ts)
      else case arguments_map s t of
             None \<Rightarrow> t # spec_unmatched s (v # ts)
           | Some p \<Rightarrow>
               if is_flag (heap s p) then spec_unmatched s (v # ts)
               else spec_unmatched s ts)"


section \<open>Properties\<close>

subsection \<open>The steps of the scan\<close>

lemma handle_flag_found:
  "arguments_map s arg = Some p \<Longrightarrow> handle_flag arg s = Some (True, match_at p ''true'' s)"
  by (simp add: handle_flag_def store_value_def conditionally_mark_found_def match_at_def
                cell_matched_def)

lemma handle_argument_found:
  "arguments_map s (argv ! idx) = Some p \<Longrightarrow> idx + 1 < length argv \<Longrightarrow>
   handle_argument argv idx s = Some (True, idx + 1, match_at p (argv ! (idx + 1)) s)"
  by (simp add: handle_argument_def store_value_def conditionally_mark_found_def match_at_def
                cell_matched_def Let_def)

lemma handle_argument_last:
  "length argv \<le> idx + 1 \<Longrightarrow>
   handle_argument argv idx s = Some (False, idx, call_error_cb EXPECTED_VALUE (argv ! idx) s)"
  by (simp add: handle_argument_def Let_def)

lemma dispatch_found:
  "arguments_map s (argv ! i) = Some p \<Longrightarrow>
   dispatch argv i p s =
     (if is_flag (heap s p) then Some (True, i, match_at p ''true'' s)
      else if i + 1 < length argv then Some (True, i + 1, match_at p (argv ! (i + 1)) s)
      else Some (False, i, call_error_cb EXPECTED_VALUE (argv ! i) s))"
  by (simp add: dispatch_def handle_flag_found handle_argument_found handle_argument_last)

lemma parse_loop_step:
  "parse_loop argv i s =
     (if i < length argv then
        (if is_help s (argv ! i) then parse_loop argv (Suc i) (call_post_help_cb (print_help s))
         else case arguments_map s (argv ! i) of
            None \<Rightarrow> parse_loop argv (Suc i) (s\<lparr> unmatchd_args := unmatchd_args s @ [argv ! i] \<rparr>)
          | Some p \<Rightarrow>
              if is_flag (heap s p) then parse_loop argv (Suc i) (match_at p ''true'' s)
              else if i + 1 < length argv then parse_loop argv (i + 2) (match_at p (argv ! (i + 1)) s)
              else Some (False, call_error_cb EXPECTED_VALUE (argv ! i) s))
      else Some (True, s))"
  by (subst parse_loop.simps) (auto simp: dispatch_found is_help_def split: option.splits)

lemma parse_loop_here:
  "\<not> i < length argv \<Longrightarrow> parse_loop argv i s = Some (True, s)"
  "i < length argv \<Longrightarrow> is_help s (argv ! i) \<Longrightarrow>
     parse_loop argv i s = parse_loop argv (Suc i) (call_post_help_cb (print_help s))"
  "i < length argv \<Longrightarrow> \<not> is_help s (argv ! i) \<Longrightarrow> arguments_map s (argv ! i) = None \<Longrightarrow>
     parse_loop argv i s = parse_loop argv (Suc i) (s\<lparr> unmatchd_args := unmatchd_args s @ [argv ! i] \<rparr>)"
  "i < length argv \<Longrightarrow> \<not> is_help s (argv ! i) \<Longrightarrow> arguments_map s (argv ! i) = Some p \<Longrightarrow>
     is_flag (heap s p) \<Longrightarrow> parse_loop argv i s = parse_loop argv (Suc i) (match_at p ''true'' s)"
  "i < length argv \<Longrightarrow> \<not> is_help s (argv ! i) \<Longrightarrow> arguments_map s (argv ! i) = Some p \<Longrightarrow>
     \<not> is_flag (heap s p) \<Longrightarrow> i + 1 < length argv \<Longrightarrow>
     parse_loop argv i s = parse_loop argv (i + 2) (match_at p (argv ! (i + 1)) s)"
  "i < length argv \<Longrightarrow> \<not> is_help s (argv ! i) \<Longrightarrow> arguments_map s (argv ! i) = Some p \<Longrightarrow>
     \<not> is_flag (heap s p) \<Longrightarrow> \<not> i + 1 < length argv \<Longrightarrow>
     parse_loop argv i s = Some (False, call_error_cb EXPECTED_VALUE (argv ! i) s)"
  by (subst parse_loop_step, simp)+

text \<open>Induction along the scan, one case for each thing a step can do.\<close>

lemma parse_loop_cases_induct [case_names at_end help_token unmatched_token flag_token option_value option_last]:
  assumes at_end: "\<And>argv i s. \<not> i < length argv \<Longrightarrow> P argv i s"
    and help_token: "\<And>argv i s. \<lbrakk> i < length argv; is_help s (argv ! i);
                  P argv (Suc i) (call_post_help_cb (print_help s)) \<rbrakk> \<Longrightarrow> P argv i s"
    and unmatched_token: "\<And>argv i s. \<lbrakk> i < length argv; \<not> is_help s (argv ! i);
                  arguments_map s (argv ! i) = None;
                  P argv (Suc i) (s\<lparr> unmatchd_args := unmatchd_args s @ [argv ! i] \<rparr>) \<rbrakk>
               \<Longrightarrow> P argv i s"
    and flag_token: "\<And>argv i s p. \<lbrakk> i < length argv; \<not> is_help s (argv ! i);
                  arguments_map s (argv ! i) = Some p; is_flag (heap s p);
                  P argv (Suc i) (match_at p ''true'' s) \<rbrakk> \<Longrightarrow> P argv i s"
    and option_value: "\<And>argv i s p. \<lbrakk> i < length argv; \<not> is_help s (argv ! i);
                  arguments_map s (argv ! i) = Some p; \<not> is_flag (heap s p); i + 1 < length argv;
                  P argv (i + 2) (match_at p (argv ! (i + 1)) s) \<rbrakk> \<Longrightarrow> P argv i s"
    and option_last: "\<And>argv i s p. \<lbrakk> i < length argv; \<not> is_help s (argv ! i);
                  arguments_map s (argv ! i) = Some p; \<not> is_flag (heap s p);
                  \<not> i + 1 < length argv \<rbrakk> \<Longrightarrow> P argv i s"
  shows "P argv i s"
proof (induction argv i s rule: parse_loop.induct)
  case (1 argv i s)
  show ?case
  proof (cases "i < length argv")
    case False
    then show ?thesis by (rule at_end)
  next
    case len: True
    show ?thesis
    proof (cases "is_help s (argv ! i)")
      case True
      show ?thesis
        by (rule help_token) (use len True "1.IH"(1) in \<open>simp_all add: is_help_def\<close>)
    next
      case nh: False
      then have h: "\<not> (auto_help_enable s \<and> (argv ! i = ''-h'' \<or> argv ! i = ''--help''))"
        by (simp add: is_help_def)
      show ?thesis
      proof (cases "arguments_map s (argv ! i)")
        case None
        show ?thesis
          by (rule unmatched_token) (use len nh h None "1.IH"(2) in simp_all)
      next
        case (Some p)
        show ?thesis
        proof (cases "is_flag (heap s p)")
          case True
          then have d: "dispatch argv i p s = Some (True, i, match_at p ''true'' s)"
            using Some by (simp add: dispatch_found)
          show ?thesis
            by (rule flag_token [of _ _ _ p])
               (use "1.IH"(3) [OF len h Some d refl refl] len nh Some True in simp_all)
        next
          case nf: False
          show ?thesis
          proof (cases "i + 1 < length argv")
            case True
            then have d: "dispatch argv i p s = Some (True, i + 1, match_at p (argv ! (i + 1)) s)"
              using Some nf by (simp add: dispatch_found)
            show ?thesis
              by (rule option_value [of _ _ _ p])
                 (use "1.IH"(3) [OF len h Some d refl refl] len nh Some nf True in simp_all)
          next
            case False
            show ?thesis
              by (rule option_last [of _ _ _ p]) (use len nh Some nf False in simp_all)
          qed
        qed
      qed
    qed
  qed
qed

text \<open>The scan returns: no step takes the undefined branch.\<close>

lemma parse_loop_total: "parse_loop argv i s \<noteq> None"
  by (induction argv i s rule: parse_loop_cases_induct) (simp_all add: parse_loop_here)

lemma parse_total: "parse (a0 # rest) s \<noteq> None"
  using parse_loop_total [of "a0 # rest" 0 "s\<lparr> program_name := a0 \<rparr>"]
  by (auto simp: parse_def split: option.splits)

subsection \<open>Running the parser on concrete input\<close>

lemmas run_defs =
  parse_def parse_loop.simps add_argument_def add_flag_def add_arg_def std_set_def
  new_arger_def set_error_cb_def set_auto_help_def dispatch_def handle_argument_def
  handle_flag_def store_value_def conditionally_mark_found_def get_arg_string_def
  get_arg_bool_def get_unmatched_args_def get_program_name_def extract_string_def
  extract_bool_def isspace_def isdigit_def call_error_cb_def call_post_help_cb_def
  print_help_def help_text_def help_line_def endl_def Let_def dec_of_int_def
  dec_of_nat.simps digit_char_def

subsection \<open>Simulation along the scan\<close>

text \<open>
  Two states that a relation \<open>R\<close> links take the same branches when \<open>R\<close> implies that they
  agree on the help switch, the alias index and the kinds of the cells; if every step keeps
  \<open>R\<close>, the two scans end alike, in states that \<open>R\<close> links.
\<close>

lemma parse_loop_sim:
  assumes same: "\<And>s t. R s t \<Longrightarrow>
        auto_help_enable t = auto_help_enable s \<and> arguments_map t = arguments_map s
        \<and> (\<forall>p. is_flag (heap t p) = is_flag (heap s p))"
    and help_sim: "\<And>s t. R s t \<Longrightarrow>
        R (call_post_help_cb (print_help s)) (call_post_help_cb (print_help t))"
    and unmatched_sim: "\<And>s t x. R s t \<Longrightarrow>
        R (s\<lparr> unmatchd_args := unmatchd_args s @ [x] \<rparr>) (t\<lparr> unmatchd_args := unmatchd_args t @ [x] \<rparr>)"
    and match_sim: "\<And>s t p v. R s t \<Longrightarrow> R (match_at p v s) (match_at p v t)"
    and error_sim: "\<And>s t e c. R s t \<Longrightarrow> R (call_error_cb e c s) (call_error_cb e c t)"
  shows "R s t \<Longrightarrow> rel_option (rel_prod (=) R) (parse_loop argv i s) (parse_loop argv i t)"
proof (induction argv i s arbitrary: t rule: parse_loop_cases_induct)
  case (at_end argv i s)
  then show ?case by (simp add: parse_loop_here)
next
  case (help_token argv i s)
  from same [OF help_token.prems] help_token.hyps have "is_help t (argv ! i)"
    by (simp add: is_help_def)
  with help_token.hyps help_token.IH [OF help_sim [OF help_token.prems]]
  show ?case by (simp add: parse_loop_here)
next
  case (unmatched_token argv i s)
  from same [OF unmatched_token.prems] unmatched_token.hyps
  have "\<not> is_help t (argv ! i)" "arguments_map t (argv ! i) = None"
    by (simp_all add: is_help_def)
  with unmatched_token.hyps unmatched_token.IH [OF unmatched_sim [OF unmatched_token.prems]]
  show ?case by (simp add: parse_loop_here)
next
  case (flag_token argv i s p)
  from same [OF flag_token.prems] flag_token.hyps
  have "\<not> is_help t (argv ! i)" "arguments_map t (argv ! i) = Some p" "is_flag (heap t p)"
    by (simp_all add: is_help_def)
  with flag_token.hyps flag_token.IH [OF match_sim [OF flag_token.prems]]
  show ?case by (simp add: parse_loop_here)
next
  case (option_value argv i s p)
  from same [OF option_value.prems] option_value.hyps
  have "\<not> is_help t (argv ! i)" "arguments_map t (argv ! i) = Some p" "\<not> is_flag (heap t p)"
    by (simp_all add: is_help_def)
  with option_value.hyps option_value.IH [OF match_sim [OF option_value.prems]]
  show ?case by (simp add: parse_loop_here)
next
  case (option_last argv i s p)
  from same [OF option_last.prems] option_last.hyps
  have "\<not> is_help t (argv ! i)" "arguments_map t (argv ! i) = Some p" "\<not> is_flag (heap t p)"
    by (simp_all add: is_help_def)
  with option_last.hyps error_sim [OF option_last.prems]
  show ?case by (simp add: parse_loop_here)
qed

subsection \<open>The help text\<close>

lemma help_text_cong:
  "program_name t = program_name s \<Longrightarrow> argument_defs t = argument_defs s \<Longrightarrow>
   (\<And>p. req_and_found (heap t p) = req_and_found (heap s p)) \<Longrightarrow> help_text t = help_text s"
proof -
  assume a: "program_name t = program_name s" "argument_defs t = argument_defs s"
    and r: "\<And>p. req_and_found (heap t p) = req_and_found (heap s p)"
  have "help_line t d = help_line s d" for d
    by (simp add: help_line_def r)
  then have "help_line t = help_line s" by (rule ext)
  with a show ?thesis by (simp add: help_text_def)
qed

subsection \<open>The error callback is only called\<close>

lemma without_error_cb_call [simp]:
  "without_error_cb (call_error_cb e c s) = without_error_cb s"
  "call_error_cb e c (without_error_cb s) = without_error_cb s"
  by (simp_all add: without_error_cb_def call_error_cb_def)

lemma without_error_cb_fields [simp]:
  "arguments_map (without_error_cb s) = arguments_map s"
  "argument_defs (without_error_cb s) = argument_defs s"
  "auto_help_enable (without_error_cb s) = auto_help_enable s"
  "heap (without_error_cb s) = heap s"
  "heap_next (without_error_cb s) = heap_next s"
  "program_name (without_error_cb s) = program_name s"
  "unmatchd_args (without_error_cb s) = unmatchd_args s"
  by (simp_all add: without_error_cb_def)

lemma without_error_cb_help:
  "call_post_help_cb (print_help (without_error_cb s))
   = without_error_cb (call_post_help_cb (print_help s))"
proof -
  have "help_text (without_error_cb s) = help_text s"
    by (rule help_text_cong) simp_all
  then show ?thesis
    by (simp add: print_help_def call_post_help_cb_def without_error_cb_def)
qed

lemma parse_loop_without_error_cb:
  "rel_option (rel_prod (=) (\<lambda>s t. t = without_error_cb s))
     (parse_loop argv i s) (parse_loop argv i (without_error_cb s))"
proof (rule parse_loop_sim)
  show "t = without_error_cb s \<Longrightarrow>
        auto_help_enable t = auto_help_enable s \<and> arguments_map t = arguments_map s
        \<and> (\<forall>p. is_flag (heap t p) = is_flag (heap s p))" for s t
    by simp
  show "t = without_error_cb s \<Longrightarrow>
        call_post_help_cb (print_help t) = without_error_cb (call_post_help_cb (print_help s))" for s t
    by (simp add: without_error_cb_help)
  show "t = without_error_cb s \<Longrightarrow>
        t\<lparr> unmatchd_args := unmatchd_args t @ [x] \<rparr>
        = without_error_cb (s\<lparr> unmatchd_args := unmatchd_args s @ [x] \<rparr>)" for s t x
    by (simp add: without_error_cb_def)
  show "t = without_error_cb s \<Longrightarrow> match_at p v t = without_error_cb (match_at p v s)" for s t p v
    by (simp add: without_error_cb_def match_at_def)
  show "t = without_error_cb s \<Longrightarrow>
        call_error_cb e c t = without_error_cb (call_error_cb e c s)" for s t e c
    by simp
  show "without_error_cb s = without_error_cb s" ..
qed

lemma check_required_without_error_cb:
  "check_required ds (without_error_cb s)
   = (fst (check_required ds s), without_error_cb (snd (check_required ds s)))"
  by (induction ds) simp_all

lemma parse_without_error_cb:
  "parse argv (without_error_cb s) =
   map_option (\<lambda>(ok, s'). (ok, without_error_cb s')) (parse argv s)"
proof (cases argv)
  case Nil
  then show ?thesis by (simp add: parse_def)
next
  case (Cons a0 rest)
  have eq: "(without_error_cb s)\<lparr> program_name := a0 \<rparr> = without_error_cb (s\<lparr> program_name := a0 \<rparr>)"
    by (simp add: without_error_cb_def)
  obtain ok s1 where r: "parse_loop argv 0 (s\<lparr> program_name := a0 \<rparr>) = Some (ok, s1)"
    using parse_loop_total [of argv 0 "s\<lparr> program_name := a0 \<rparr>"] by auto
  from parse_loop_without_error_cb [of argv 0 "s\<lparr> program_name := a0 \<rparr>"] r
  have r': "parse_loop argv 0 (without_error_cb (s\<lparr> program_name := a0 \<rparr>))
            = Some (ok, without_error_cb s1)"
    by (auto simp: option_rel_Some1)
  show ?thesis
    using Cons r r' by (simp add: parse_def eq check_required_without_error_cb split_beta)
qed

lemma add_arg_without_error_cb:
  "add_arg arg descr dv required flag (without_error_cb s)
   = (fst (add_arg arg descr dv required flag s),
      without_error_cb (snd (add_arg arg descr dv required flag s)))"
  by (cases "List.find (\<lambda>a. arguments_map s a \<noteq> None) arg")
     (simp_all add: add_arg_def Let_def, simp add: without_error_cb_def)

lemma register_all_without_error_cb:
  "register_all regs (without_error_cb s)
   = (fst (register_all regs s), without_error_cb (snd (register_all regs s)))"
proof (induction regs arbitrary: s)
  case Nil
  show ?case by simp
next
  case (Cons r regs)
  obtain arg descr dv required flag where r: "r = (arg, descr, dv, required, flag)"
    by (cases r)
  show ?case
    by (simp add: r add_arg_without_error_cb Cons.IH split_beta)
qed

lemma session_without_error_cb:
  "session regs argv (without_error_cb s)
   = map_option (\<lambda>(oks, ok, s'). (oks, ok, without_error_cb s')) (session regs argv s)"
  by (simp add: session_def register_all_without_error_cb parse_without_error_cb split_beta
           split: option.splits)

subsection \<open>The check of the required arguments\<close>

lemma check_required_find:
  "check_required ds s =
     (case List.find (\<lambda>d. req_and_found (heap s (allocated_arg d)) = Some False) ds of
        None \<Rightarrow> (True, s)
      | Some d \<Rightarrow> (False, call_error_cb MISSING_REQUIRED_ARGUMENT (concated d) s))"
  by (induction ds) (simp_all add: concated_def)

subsection \<open>Registration\<close>

lemma fold_index:
  "fold (\<lambda>a m. m(a \<mapsto> p)) arg m x = (if x \<in> set arg then Some p else m x)"
  by (induction arg arbitrary: m) auto

lemma find_duplicate_None:
  "List.find (\<lambda>a. arguments_map s a \<noteq> None) arg = None \<longleftrightarrow> (\<forall>a \<in> set arg. arguments_map s a = None)"
  by (auto simp: find_None_iff)

lemma find_duplicate_Some:
  "List.find (\<lambda>a. arguments_map s a \<noteq> None) arg = Some a \<Longrightarrow> a \<in> set arg \<and> arguments_map s a \<noteq> None"
  by (auto simp: find_Some_iff)

lemma add_arg_fresh:
  assumes "\<forall>a \<in> set arg. arguments_map s a = None"
  shows "add_arg arg descr dv required flag s =
     (True, s\<lparr> heap := (heap s)(heap_next s :=
                    \<lparr> req_and_found = (if required then Some False else None),
                      value_s = to_string dv, is_flag = flag \<rparr>),
                heap_next := Suc (heap_next s),
                argument_defs := argument_defs s @
                    [\<lparr> args = arg, description = descr, default_value = to_string dv,
                       allocated_arg = heap_next s \<rparr>],
                arguments_map := (\<lambda>x. if x \<in> set arg then Some (heap_next s) else arguments_map s x) \<rparr>)"
proof -
  have "List.find (\<lambda>a. arguments_map s a \<noteq> None) arg = None"
    by (subst find_duplicate_None) (rule assms)
  moreover have "fold (\<lambda>a m. m(a \<mapsto> heap_next s)) arg (arguments_map s)
                 = (\<lambda>x. if x \<in> set arg then Some (heap_next s) else arguments_map s x)"
    by (rule ext) (simp add: fold_index)
  ultimately show ?thesis by (simp add: add_arg_def Let_def)
qed

lemma add_arg_duplicate:
  assumes "\<exists>a \<in> set arg. arguments_map s a \<noteq> None"
  shows "\<exists>a \<in> set arg. arguments_map s a \<noteq> None
           \<and> add_arg arg descr dv required flag s = (False, call_error_cb DUPLICATE_DEFINITION a s)"
proof -
  have "List.find (\<lambda>a. arguments_map s a \<noteq> None) arg \<noteq> None"
  proof
    assume "List.find (\<lambda>a. arguments_map s a \<noteq> None) arg = None"
    then have "\<forall>a \<in> set arg. arguments_map s a = None"
      by (simp only: find_duplicate_None)
    with assms show False by auto
  qed
  then obtain a where f: "List.find (\<lambda>a. arguments_map s a \<noteq> None) arg = Some a" by auto
  from find_duplicate_Some [OF f] f show ?thesis
    by (auto simp: add_arg_def)
qed

lemma arger_inv_new [simp]: "arger_inv (new_arger cb)"
  by (simp add: arger_inv_def new_arger_def)

lemma arger_inv_set_error_cb [simp]: "arger_inv (set_error_cb cb s) = arger_inv s"
  by (simp add: arger_inv_def set_error_cb_def)

lemma arger_inv_call_error_cb [simp]: "arger_inv (call_error_cb e c s) = arger_inv s"
  by (simp add: arger_inv_def call_error_cb_def)

lemma arger_inv_add_arg:
  assumes "arger_inv s"
  shows "arger_inv (snd (add_arg arg descr dv required flag s))"
proof (cases "\<forall>a \<in> set arg. arguments_map s a = None")
  case True
  have "p < heap_next s \<Longrightarrow> p \<noteq> heap_next s" for p by simp
  with assms True show ?thesis
    unfolding add_arg_fresh [OF True] arger_inv_def
    by (auto simp: less_Suc_eq)
next
  case False
  then have "\<exists>a \<in> set arg. arguments_map s a \<noteq> None" by simp
  from add_arg_duplicate [OF this, of descr dv required flag] assms
  show ?thesis by auto
qed

subsection \<open>What the steps leave alone\<close>

lemma match_at_fields [simp]:
  "arguments_map (match_at p v s) = arguments_map s"
  "argument_defs (match_at p v s) = argument_defs s"
  "auto_help_enable (match_at p v s) = auto_help_enable s"
  "program_name (match_at p v s) = program_name s"
  "unmatchd_args (match_at p v s) = unmatchd_args s"
  "heap_next (match_at p v s) = heap_next s"
  "error_cb (match_at p v s) = error_cb s"
  "is_flag (heap (match_at p v s) q) = is_flag (heap s q)"
  by (simp_all add: match_at_def cell_matched_def)

lemma help_fields [simp]:
  "arguments_map (call_post_help_cb (print_help s)) = arguments_map s"
  "argument_defs (call_post_help_cb (print_help s)) = argument_defs s"
  "auto_help_enable (call_post_help_cb (print_help s)) = auto_help_enable s"
  "program_name (call_post_help_cb (print_help s)) = program_name s"
  "unmatchd_args (call_post_help_cb (print_help s)) = unmatchd_args s"
  "heap_next (call_post_help_cb (print_help s)) = heap_next s"
  "error_cb (call_post_help_cb (print_help s)) = error_cb s"
  "heap (call_post_help_cb (print_help s)) = heap s"
  by (simp_all add: call_post_help_cb_def print_help_def)

lemma call_error_cb_fields [simp]:
  "arguments_map (call_error_cb e c s) = arguments_map s"
  "argument_defs (call_error_cb e c s) = argument_defs s"
  "auto_help_enable (call_error_cb e c s) = auto_help_enable s"
  "program_name (call_error_cb e c s) = program_name s"
  "unmatchd_args (call_error_cb e c s) = unmatchd_args s"
  "heap_next (call_error_cb e c s) = heap_next s"
  "error_cb (call_error_cb e c s) = error_cb s"
  "heap (call_error_cb e c s) = heap s"
  by (simp_all add: call_error_cb_def)

lemma parse_loop_frame:
  "parse_loop argv i s = Some (ok, s') \<Longrightarrow>
     arguments_map s' = arguments_map s \<and> argument_defs s' = argument_defs s
   \<and> auto_help_enable s' = auto_help_enable s \<and> program_name s' = program_name s
   \<and> heap_next s' = heap_next s \<and> error_cb s' = error_cb s
   \<and> (\<forall>q. is_flag (heap s' q) = is_flag (heap s q))"
proof (induction argv i s rule: parse_loop_cases_induct)
  case (at_end argv i s)
  then show ?case by (simp add: parse_loop_here)
next
  case (help_token argv i s)
  from help_token.prems help_token.hyps
  have "parse_loop argv (Suc i) (call_post_help_cb (print_help s)) = Some (ok, s')"
    by (simp add: parse_loop_here)
  from help_token.IH [OF this] show ?case by simp
next
  case (unmatched_token argv i s)
  from unmatched_token.prems unmatched_token.hyps
  have "parse_loop argv (Suc i) (s\<lparr> unmatchd_args := unmatchd_args s @ [argv ! i] \<rparr>) = Some (ok, s')"
    by (simp add: parse_loop_here)
  from unmatched_token.IH [OF this] show ?case by simp
next
  case (flag_token argv i s p)
  from flag_token.prems flag_token.hyps
  have "parse_loop argv (Suc i) (match_at p ''true'' s) = Some (ok, s')"
    by (simp add: parse_loop_here)
  from flag_token.IH [OF this] show ?case by simp
next
  case (option_value argv i s p)
  from option_value.prems option_value.hyps
  have "parse_loop argv (i + 2) (match_at p (argv ! (i + 1)) s) = Some (ok, s')"
    by (simp add: parse_loop_here)
  from option_value.IH [OF this] show ?case by simp
next
  case (option_last argv i s p)
  from option_last.prems option_last.hyps
  have "s' = call_error_cb EXPECTED_VALUE (argv ! i) s"
    by (simp add: parse_loop_here)
  then show ?case by simp
qed

subsection \<open>The scan of a prefix\<close>

text \<open>
  A scan that fails has failed at the last token, and the tokens in front of it,
  scanned on their own, give the state in which it failed.
\<close>

lemma parse_loop_snoc_fails:
  "parse_loop (pre @ [t]) i s = Some (False, s') \<Longrightarrow> i \<le> length pre \<Longrightarrow>
   \<exists>s2. parse_loop pre i s = Some (True, s2) \<and> s' = call_error_cb EXPECTED_VALUE t s2"
proof (induction pre i s rule: parse_loop_cases_induct)
  case (at_end pre i s)
  then have i: "i = length pre" by simp
  have past: "parse_loop (pre @ [t]) (Suc (length pre)) u = Some (True, u)" for u
    by (simp add: parse_loop_here)
  from at_end.prems(1) show ?case
    unfolding i
    by (subst (asm) parse_loop_step)
       (auto simp: past parse_loop_here(1) split: if_splits option.splits)
next
  case (help_token pre i s)
  then have "parse_loop (pre @ [t]) (Suc i) (call_post_help_cb (print_help s)) = Some (False, s')"
    by (simp add: parse_loop_here(2) [of i "pre @ [t]"] nth_append)
  from help_token.IH [OF this] help_token.hyps show ?case
    by (simp add: parse_loop_here)
next
  case (unmatched_token pre i s)
  then have "parse_loop (pre @ [t]) (Suc i) (s\<lparr> unmatchd_args := unmatchd_args s @ [pre ! i] \<rparr>)
             = Some (False, s')"
    by (simp add: parse_loop_here(3) [of i "pre @ [t]"] nth_append)
  from unmatched_token.IH [OF this] unmatched_token.hyps show ?case
    by (simp add: parse_loop_here)
next
  case (flag_token pre i s p)
  then have "parse_loop (pre @ [t]) (Suc i) (match_at p ''true'' s) = Some (False, s')"
    by (simp add: parse_loop_here(4) [of i "pre @ [t]" _ p] nth_append)
  from flag_token.IH [OF this] flag_token.hyps show ?case
    by (simp add: parse_loop_here)
next
  case (option_value pre i s p)
  then have "parse_loop (pre @ [t]) (i + 2) (match_at p (pre ! (i + 1)) s) = Some (False, s')"
    by (simp add: parse_loop_here(5) [of i "pre @ [t]" _ p] nth_append)
  from option_value.IH [OF this] option_value.hyps show ?case
    by (simp add: parse_loop_here)
next
  case (option_last pre i s p)
  then have i: "Suc i = length pre" by simp
  have "parse_loop (pre @ [t]) i s = parse_loop (pre @ [t]) (i + 2) (match_at p ((pre @ [t]) ! (i + 1)) s)"
    using option_last.hyps i
    by (intro parse_loop_here(5) [of i "pre @ [t]" _ p]) (simp_all add: nth_append)
  also have "\<dots> = Some (True, match_at p ((pre @ [t]) ! (i + 1)) s)"
    using i by (simp add: parse_loop_here(1))
  finally show ?case using option_last.prems by simp
qed



lemma check_required_frame:
  "arguments_map (snd (check_required ds s)) = arguments_map s"
  "heap (snd (check_required ds s)) = heap s"
  by (induction ds) simp_all


subsection \<open>What the scan appends to the unmatched list\<close>

lemma spec_unmatched_Cons:
  "spec_unmatched s (t # ts) =
     (if is_help s t then spec_unmatched s ts
      else case arguments_map s t of
             None \<Rightarrow> t # spec_unmatched s ts
           | Some p \<Rightarrow>
               if is_flag (heap s p) then spec_unmatched s ts
               else spec_unmatched s (drop 1 ts))"
  by (cases ts) (simp_all split: option.splits)

lemma spec_unmatched_cong:
  "auto_help_enable t = auto_help_enable s \<Longrightarrow> arguments_map t = arguments_map s \<Longrightarrow>
   (\<And>p. is_flag (heap t p) = is_flag (heap s p)) \<Longrightarrow>
   spec_unmatched t ts = spec_unmatched s ts"
  by (induction s ts rule: spec_unmatched.induct) (auto simp: is_help_def split: option.splits)

lemma parse_loop_unmatched:
  "parse_loop argv i s = Some (ok, s') \<Longrightarrow>
   unmatchd_args s' = unmatchd_args s @ spec_unmatched s (drop i argv)"
proof (induction argv i s rule: parse_loop_cases_induct)
  case (at_end argv i s)
  then show ?case by (simp add: parse_loop_here)
next
  case (help_token argv i s)
  let ?t = "call_post_help_cb (print_help s)"
  from help_token.prems help_token.hyps
  have "parse_loop argv (Suc i) ?t = Some (ok, s')"
    by (simp add: parse_loop_here)
  from help_token.IH [OF this]
  have "unmatchd_args s' = unmatchd_args s @ spec_unmatched ?t (drop (Suc i) argv)" by simp
  moreover have "spec_unmatched ?t (drop (Suc i) argv) = spec_unmatched s (drop (Suc i) argv)"
    by (rule spec_unmatched_cong) simp_all
  moreover have "drop i argv = argv ! i # drop (Suc i) argv"
    using help_token.hyps by (simp add: Cons_nth_drop_Suc)
  ultimately show ?case
    using help_token.hyps by (simp add: spec_unmatched_Cons)
next
  case (unmatched_token argv i s)
  let ?t = "s\<lparr> unmatchd_args := unmatchd_args s @ [argv ! i] \<rparr>"
  from unmatched_token.prems unmatched_token.hyps
  have "parse_loop argv (Suc i) ?t = Some (ok, s')"
    by (simp add: parse_loop_here)
  from unmatched_token.IH [OF this]
  have "unmatchd_args s' = (unmatchd_args s @ [argv ! i]) @ spec_unmatched ?t (drop (Suc i) argv)"
    by simp
  moreover have "spec_unmatched ?t (drop (Suc i) argv) = spec_unmatched s (drop (Suc i) argv)"
    by (rule spec_unmatched_cong) simp_all
  moreover have "drop i argv = argv ! i # drop (Suc i) argv"
    using unmatched_token.hyps by (simp add: Cons_nth_drop_Suc)
  ultimately show ?case
    using unmatched_token.hyps by (simp add: spec_unmatched_Cons)
next
  case (flag_token argv i s p)
  let ?t = "match_at p ''true'' s"
  from flag_token.prems flag_token.hyps
  have "parse_loop argv (Suc i) ?t = Some (ok, s')"
    by (simp add: parse_loop_here)
  from flag_token.IH [OF this]
  have "unmatchd_args s' = unmatchd_args s @ spec_unmatched ?t (drop (Suc i) argv)" by simp
  moreover have "spec_unmatched ?t (drop (Suc i) argv) = spec_unmatched s (drop (Suc i) argv)"
    by (rule spec_unmatched_cong) simp_all
  moreover have "drop i argv = argv ! i # drop (Suc i) argv"
    using flag_token.hyps by (simp add: Cons_nth_drop_Suc)
  ultimately show ?case
    using flag_token.hyps by (simp add: spec_unmatched_Cons)
next
  case (option_value argv i s p)
  let ?t = "match_at p (argv ! (i + 1)) s"
  from option_value.prems option_value.hyps
  have "parse_loop argv (i + 2) ?t = Some (ok, s')"
    by (simp add: parse_loop_here)
  from option_value.IH [OF this]
  have "unmatchd_args s' = unmatchd_args s @ spec_unmatched ?t (drop (i + 2) argv)" by simp
  moreover have "spec_unmatched ?t (drop (i + 2) argv) = spec_unmatched s (drop (i + 2) argv)"
    by (rule spec_unmatched_cong) simp_all
  moreover have "drop i argv = argv ! i # drop (Suc i) argv"
    using option_value.hyps by (simp add: Cons_nth_drop_Suc)
  ultimately show ?case
    using option_value.hyps by (simp add: spec_unmatched_Cons)
next
  case (option_last argv i s p)
  then have "drop i argv = [argv ! i]"
    by (metis Cons_nth_drop_Suc Suc_eq_plus1 drop_all not_less)
  moreover from option_last have "s' = call_error_cb EXPECTED_VALUE (argv ! i) s"
    by (simp add: parse_loop_here)
  ultimately show ?case
    using option_last.hyps by (simp add: spec_unmatched_Cons)
qed

lemma check_required_unmatched:
  "unmatchd_args (snd (check_required ds s)) = unmatchd_args s"
  "auto_help_enable (snd (check_required ds s)) = auto_help_enable s"
  by (induction ds) simp_all

lemma parse_unmatched:
  "\<exists>ok s'. parse (a0 # rest) s = Some (ok, s')
      \<and> unmatchd_args s' = unmatchd_args s @ spec_unmatched s (a0 # rest)
      \<and> auto_help_enable s' = auto_help_enable s \<and> arguments_map s' = arguments_map s
      \<and> (\<forall>p. is_flag (heap s' p) = is_flag (heap s p))"
proof -
  let ?s0 = "s\<lparr> program_name := a0 \<rparr>"
  obtain ok1 s1 where scan: "parse_loop (a0 # rest) 0 ?s0 = Some (ok1, s1)"
    using parse_loop_total [of "a0 # rest" 0 ?s0] by auto
  have "spec_unmatched ?s0 (a0 # rest) = spec_unmatched s (a0 # rest)"
    by (rule spec_unmatched_cong) simp_all
  with parse_loop_unmatched [OF scan]
  have u: "unmatchd_args s1 = unmatchd_args s @ spec_unmatched s (a0 # rest)" by simp
  from parse_loop_frame [OF scan]
  have f: "auto_help_enable s1 = auto_help_enable s" "arguments_map s1 = arguments_map s"
    "\<forall>p. is_flag (heap s1 p) = is_flag (heap s p)" by simp_all
  show ?thesis
  proof (cases ok1)
    case True
    obtain ok s' where c: "check_required (argument_defs s1) s1 = (ok, s')"
      by (cases "check_required (argument_defs s1) s1")
    then have s': "s' = snd (check_required (argument_defs s1) s1)" by simp
    from True scan c have "parse (a0 # rest) s = Some (ok, s')"
      by (simp add: parse_def)
    moreover from u f have "unmatchd_args s' = unmatchd_args s @ spec_unmatched s (a0 # rest)"
      "auto_help_enable s' = auto_help_enable s" "arguments_map s' = arguments_map s"
      "\<forall>p. is_flag (heap s' p) = is_flag (heap s p)"
      unfolding s' by (simp_all add: check_required_unmatched check_required_frame)
    ultimately show ?thesis by blast
  next
    case False
    then have "parse (a0 # rest) s = Some (False, s1)"
      using scan by (simp add: parse_def)
    with u f show ?thesis by blast
  qed
qed

section \<open>The claims\<close>

text \<open>
  Claim C1, as stated: with one value-bearing option \<open>--name\<close>, parsing
  \<open>prog --name y extra\<close> leaves exactly \<open>extra\<close> in the unmatched list. The scan
  starts at index 0, the program name is no alias, and so it is the first unmatched
  token: the list is not \<open>[extra]\<close>.
\<close>

theorem parse_name_unmatched_counterexample:
  "map_option (get_unmatched_args \<circ> snd)
     (parse [''prog'', ''--name'', ''y'', ''extra'']
        (snd (add_argument (std_set [''--name'']) ''name'' (ArgString ''x'') False
                (new_arger False))))
   \<noteq> Some [''extra'']"
  by (auto simp: run_defs)

text \<open>
  Claim C1, amended: whatever the description, the default, the required flag and the
  callbacks are, parsing \<open>prog --name y extra\<close> succeeds, \<open>get_arg<std::string>\<close> of
  \<open>--name\<close> is \<open>y\<close>, and the unmatched list is \<open>[prog, extra]\<close>. The value token \<open>y\<close>
  is not in the list: it was never looked up, since a look-up of it would have missed
  and appended it.
\<close>

theorem parse_name_option:
  "map_option (\<lambda>(ok, s). (ok, get_arg_string ''--name'' s, get_unmatched_args s))
     (parse [''prog'', ''--name'', ''y'', ''extra'']
        (snd (add_argument (std_set [''--name'']) descr dv required
                (set_error_cb ecb (new_arger hcb)))))
   = Some (True, Some ''y'', [''prog'', ''extra''])"
  by (auto simp: run_defs)

text \<open>
  Claim C2: for a flag with default \<open>false\<close>, \<open>get_arg<bool>\<close> of its alias should be
  \<open>false\<close> when the flag is absent and \<open>true\<close> once it was seen. The default goes
  through \<open>std::to_string\<close> and is stored as \<open>0\<close>, which reads as \<open>false\<close>. But
  \<open>handle_flag\<close> stores the text \<open>true\<close>; the accessor reads a number, finds no digit
  in \<open>true\<close>, and returns \<open>false\<close> again: parsing \<open>prog -b\<close> succeeds, the cell
  holds \<open>true\<close>, and \<open>get_arg<bool>("-b")\<close> is \<open>false\<close>. The flag did consume one
  token only: \<open>x\<close> behind it is unmatched.
\<close>

theorem flag_seen_reads_false:
  "map_option (\<lambda>(ok, s). (ok, get_arg_string ''-b'' s, get_arg_bool ''-b'' s, get_unmatched_args s))
     (parse [''prog'']
        (snd (add_flag (std_set [''-b'', ''--bool'']) ''A bool'' False False (new_arger False))))
   = Some (True, Some ''0'', Some (Val False), [''prog''])
   \<and> map_option (\<lambda>(ok, s). (ok, get_arg_string ''-b'' s, get_arg_bool ''-b'' s, get_unmatched_args s))
     (parse [''prog'', ''-b'', ''x'']
        (snd (add_flag (std_set [''-b'', ''--bool'']) ''A bool'' False False (new_arger False))))
   = Some (True, Some ''true'', Some (Val False), [''prog'', ''x''])"
  by (auto simp: run_defs)

text \<open>
  Claim C3: a help token should print the help, call the post-help callback exactly
  once, and let the scan go on. \<open>print_help\<close> calls the callback at its end and
  \<open>parse\<close> calls it again when \<open>print_help\<close> has returned: parsing \<open>prog -h x\<close> with a
  callback that returns calls it twice. The help is printed and the scan does go on:
  \<open>x\<close> is in the unmatched list and \<open>parse\<close> succeeds.
\<close>

theorem help_token_calls_back_twice:
  "map_option (\<lambda>(ok, s). (ok, post_help_calls s, get_unmatched_args s, cout s))
     (parse [''prog'', ''-h'', ''x''] (new_arger True))
   = Some (True, 2, [''prog'', ''x''],
           ''Usage: prog [options]'' @ [CHR 0x0A, CHR 0x0A] @ ''Options:'' @ [CHR 0x0A, CHR 0x0A])"
  by (auto simp: run_defs)

text \<open>
  Claim C7, amended: \<open>parse\<close> never clears the unmatched list. After a second call the
  list holds what it held before the first call (nothing, on a new parser), then the
  unmatched tokens of the first input, then the unmatched tokens of the second input,
  each in input order: the tokens that are no help trigger, match no alias and are
  not taken as the value of an option. Both calls return.
\<close>

theorem second_parse_appends:
  "map_option (\<lambda>(ok1, ok2, s2). get_unmatched_args s2)
     (parse_twice (a1 # rest1) (a2 # rest2) s)
   = Some (get_unmatched_args s @ spec_unmatched s (a1 # rest1) @ spec_unmatched s (a2 # rest2))"
proof -
  from parse_unmatched [of a1 rest1 s] obtain ok1 s1
    where 1: "parse (a1 # rest1) s = Some (ok1, s1)"
      "unmatchd_args s1 = unmatchd_args s @ spec_unmatched s (a1 # rest1)"
      "auto_help_enable s1 = auto_help_enable s" "arguments_map s1 = arguments_map s"
      "\<forall>p. is_flag (heap s1 p) = is_flag (heap s p)"
    by blast
  from parse_unmatched [of a2 rest2 s1] obtain ok2 s2
    where 2: "parse (a2 # rest2) s1 = Some (ok2, s2)"
      "unmatchd_args s2 = unmatchd_args s1 @ spec_unmatched s1 (a2 # rest2)"
    by blast
  have "spec_unmatched s1 (a2 # rest2) = spec_unmatched s (a2 # rest2)"
    using 1(3-5) by (intro spec_unmatched_cong) simp_all
  with 1 2 show ?thesis
    by (simp add: parse_twice_def get_unmatched_args_def)
qed

text \<open>
  Claim C7, as stated: after a second call the unmatched list holds the unmatched tokens
  of the second input only. With no definitions, parsing \<open>prog a\<close> and then \<open>prog b\<close>
  leaves \<open>[prog, a, prog, b]\<close>, not \<open>[prog, b]\<close>.
\<close>

theorem second_parse_counterexample:
  "map_option (\<lambda>(ok1, ok2, s2). get_unmatched_args s2)
     (parse_twice [''prog'', ''a''] [''prog'', ''b''] (new_arger False))
   \<noteq> Some [''prog'', ''b'']"
  by (auto simp: parse_twice_def run_defs)

text \<open>
  Claim C9: the error callback does not influence control flow or outcomes. For every
  start state, schema and token list, the results of the registrations, the result of
  \<open>parse\<close> and the final state, the callback and the record of its calls left aside,
  are the same whether a callback is registered or not. The callback is a side effect
  that returns.
\<close>

theorem error_cb_does_not_influence:
  "map_option (\<lambda>(oks, ok, s'). (oks, ok, without_error_cb s'))
     (session regs argv (set_error_cb True s))
   = map_option (\<lambda>(oks, ok, s'). (oks, ok, without_error_cb s'))
     (session regs argv (set_error_cb False s))"
proof -
  have "without_error_cb (set_error_cb True s) = without_error_cb (set_error_cb False s)"
    by (simp add: without_error_cb_def set_error_cb_def)
  then show ?thesis
    using session_without_error_cb [of regs argv "set_error_cb True s"]
          session_without_error_cb [of regs argv "set_error_cb False s"]
    by simp
qed

text \<open>
  Claim C4: when the scan has gone through all tokens, \<open>parse\<close> goes through the
  definitions in registration order. At the first one whose found state is \<open>false\<close> it
  calls the error callback (if there is one) once, with \<open>MISSING_REQUIRED_ARGUMENT\<close> and
  the aliases of that definition, each followed by a space, and fails; nothing else is
  reported. If there is no such definition, \<open>parse\<close> succeeds with the state of the scan.
\<close>

theorem required_check_first_missing:
  assumes "parse_loop (a0 # rest) 0 (s\<lparr> program_name := a0 \<rparr>) = Some (True, s1)"
  shows "parse (a0 # rest) s =
     Some (case List.find (\<lambda>d. req_and_found (heap s1 (allocated_arg d)) = Some False)
                  (argument_defs s1) of
             None \<Rightarrow> (True, s1)
           | Some d \<Rightarrow>
               (False, if error_cb s1
                       then s1\<lparr> error_calls := error_calls s1 @ [(MISSING_REQUIRED_ARGUMENT, concated d)] \<rparr>
                       else s1))"
  using assms
  by (simp add: parse_def check_required_find call_error_cb_def split: option.splits)

theorem required_check_first_missing_witness:
  "parse_loop [''prog''] 0 (two_required\<lparr> program_name := ''prog'' \<rparr>)
     = Some (True, two_required\<lparr> program_name := ''prog'', unmatchd_args := [''prog''] \<rparr>)
   \<and> map_option (\<lambda>(ok, s). (ok, error_calls s)) (parse [''prog''] two_required)
     = Some (False, [(MISSING_REQUIRED_ARGUMENT, ''-a '')])"
proof -
  have scan: "parse_loop [''prog''] 0 (two_required\<lparr> program_name := ''prog'' \<rparr>)
     = Some (True, two_required\<lparr> program_name := ''prog'', unmatchd_args := [''prog''] \<rparr>)"
    by (simp add: two_required_def run_defs)
  show ?thesis
    using scan required_check_first_missing [OF scan]
    by (simp add: two_required_def concated_def add_flag_def add_arg_def std_set_def
                  new_arger_def set_error_cb_def Let_def)
qed

text \<open>
  Claim C5: registration checks every alias before it changes anything. If an alias of
  the set is in the alias index already, \<open>add_arg\<close> fails, the error callback (if there
  is one) is called with \<open>DUPLICATE_DEFINITION\<close> and such an alias, and the state is
  otherwise as it was. If none is, \<open>add_arg\<close> succeeds: every alias of the set is
  indexed to one new cell, no other alias and no other cell changes, and the
  definition is appended to the registry. In a state built by registrations, no
  alias pointed to the new cell before.
\<close>

theorem add_arg_atomic:
  "((\<exists>a \<in> set arg. arguments_map s a \<noteq> None) \<longrightarrow>
      (\<exists>a \<in> set arg. arguments_map s a \<noteq> None
          \<and> add_arg arg descr dv required flag s =
              (False, if error_cb s then s\<lparr> error_calls := error_calls s @ [(DUPLICATE_DEFINITION, a)] \<rparr>
                      else s)))
   \<and> ((\<forall>a \<in> set arg. arguments_map s a = None) \<longrightarrow>
      (case add_arg arg descr dv required flag s of
         (ok, s') \<Rightarrow>
            ok
          \<and> (\<forall>a \<in> set arg. arguments_map s' a = Some (heap_next s))
          \<and> (\<forall>a. a \<notin> set arg \<longrightarrow> arguments_map s' a = arguments_map s a)
          \<and> heap s' (heap_next s) =
               \<lparr> req_and_found = (if required then Some False else None),
                 value_s = to_string dv, is_flag = flag \<rparr>
          \<and> (\<forall>p. p \<noteq> heap_next s \<longrightarrow> heap s' p = heap s p)
          \<and> argument_defs s' = argument_defs s @
               [\<lparr> args = arg, description = descr, default_value = to_string dv,
                  allocated_arg = heap_next s \<rparr>]
          \<and> (arger_inv s \<longrightarrow> arger_inv s' \<and> (\<forall>a. arguments_map s a \<noteq> Some (heap_next s)))))"
proof (intro conjI impI)
  assume "\<exists>a \<in> set arg. arguments_map s a \<noteq> None"
  from add_arg_duplicate [OF this, of descr dv required flag]
  show "\<exists>a \<in> set arg. arguments_map s a \<noteq> None
          \<and> add_arg arg descr dv required flag s =
              (False, if error_cb s then s\<lparr> error_calls := error_calls s @ [(DUPLICATE_DEFINITION, a)] \<rparr>
                      else s)"
    by (simp add: call_error_cb_def)
next
  assume fresh: "\<forall>a \<in> set arg. arguments_map s a = None"
  have inv: "arger_inv s \<Longrightarrow> arger_inv (snd (add_arg arg descr dv required flag s))"
    by (rule arger_inv_add_arg)
  have new: "arger_inv s \<Longrightarrow> arguments_map s a \<noteq> Some (heap_next s)" for a
    by (auto simp: arger_inv_def)
  show "case add_arg arg descr dv required flag s of
         (ok, s') \<Rightarrow>
            ok
          \<and> (\<forall>a \<in> set arg. arguments_map s' a = Some (heap_next s))
          \<and> (\<forall>a. a \<notin> set arg \<longrightarrow> arguments_map s' a = arguments_map s a)
          \<and> heap s' (heap_next s) =
               \<lparr> req_and_found = (if required then Some False else None),
                 value_s = to_string dv, is_flag = flag \<rparr>
          \<and> (\<forall>p. p \<noteq> heap_next s \<longrightarrow> heap s' p = heap s p)
          \<and> argument_defs s' = argument_defs s @
               [\<lparr> args = arg, description = descr, default_value = to_string dv,
                  allocated_arg = heap_next s \<rparr>]
          \<and> (arger_inv s \<longrightarrow> arger_inv s' \<and> (\<forall>a. arguments_map s a \<noteq> Some (heap_next s)))"
    using inv new unfolding add_arg_fresh [OF fresh] by simp
qed
theorem add_arg_atomic_witness:
  "arguments_map bool_flag ''-b'' = Some 0
   \<and> fst (add_arg [''-b'', ''-c''] ''other'' (ArgBool False) False True bool_flag) = False
   \<and> error_calls (snd (add_arg [''-b'', ''-c''] ''other'' (ArgBool False) False True bool_flag))
       = [(DUPLICATE_DEFINITION, ''-b'')]
   \<and> arguments_map (new_arger False) ''--bool'' = None
   \<and> arguments_map (new_arger False) ''-b'' = None
   \<and> fst (add_arg [''--bool'', ''-b''] ''A bool'' (ArgBool False) False True (new_arger False))
   \<and> arguments_map (snd (add_arg [''--bool'', ''-b''] ''A bool'' (ArgBool False) False True (new_arger False))) ''-b''
       = Some 0
   \<and> arguments_map (snd (add_arg [''--bool'', ''-b''] ''A bool'' (ArgBool False) False True (new_arger False))) ''--bool''
       = Some 0"
proof -
  have b: "arguments_map bool_flag ''-b'' = Some 0" "arguments_map bool_flag ''-c'' = None"
    "error_cb bool_flag" "error_calls bool_flag = []"
    by (simp_all add: bool_flag_def run_defs)
  then have dup: "\<exists>a \<in> set [''-b'', ''-c'']. arguments_map bool_flag a \<noteq> None"
    by simp
  have fresh: "\<forall>a \<in> set [''--bool'', ''-b'']. arguments_map (new_arger False) a = None"
    by (simp add: new_arger_def)
  have n: "heap_next (new_arger False) = 0"
    by (simp add: new_arger_def)
  have 1: "fst (add_arg [''-b'', ''-c''] ''other'' (ArgBool False) False True bool_flag) = False
     \<and> error_calls (snd (add_arg [''-b'', ''-c''] ''other'' (ArgBool False) False True bool_flag))
       = [(DUPLICATE_DEFINITION, ''-b'')]"
    using add_arg_atomic [of "[''-b'', ''-c'']" bool_flag "''other''" "ArgBool False" False True]
          dup b
    by auto
  have 2: "fst (add_arg [''--bool'', ''-b''] ''A bool'' (ArgBool False) False True (new_arger False))
     \<and> (\<forall>a \<in> set [''--bool'', ''-b''].
           arguments_map (snd (add_arg [''--bool'', ''-b''] ''A bool'' (ArgBool False) False True (new_arger False))) a
           = Some 0)"
    using add_arg_atomic [of "[''--bool'', ''-b'']" "new_arger False" "''A bool''" "ArgBool False" False True]
          fresh n
    by (simp add: split_beta)
  from 1 2 b fresh show ?thesis
    by simp
qed

text \<open>
  Claim C6: when the scan is at a token that is the alias of a value-bearing option,
  either no token follows, and then \<open>parse\<close> calls the error callback (if there is
  one) once, with \<open>EXPECTED_VALUE\<close> and the option token, and returns failure with the
  state of the scan, the required arguments unchecked; or a token follows, and then it is
  stored as it is in the cell of the option, and the scan goes on behind it.
  That the scan of \<open>parse\<close> is at index \<open>i\<close> in state \<open>s\<close> is the first hypothesis.
\<close>

theorem option_value_or_abort:
  assumes "argv = a0 # rest"
    and "parse_loop argv 0 (sI\<lparr> program_name := a0 \<rparr>) = parse_loop argv i s"
    and "i < length argv" and "\<not> is_help s (argv ! i)"
    and "arguments_map s (argv ! i) = Some p" and "\<not> is_flag (heap s p)"
  shows "(length argv \<le> i + 1 \<longrightarrow>
            parse argv sI =
              Some (False, if error_cb s
                           then s\<lparr> error_calls := error_calls s @ [(EXPECTED_VALUE, argv ! i)] \<rparr>
                           else s))
       \<and> (i + 1 < length argv \<longrightarrow>
            parse_loop argv i s = parse_loop argv (i + 2) (match_at p (argv ! (i + 1)) s)
          \<and> value_s (heap (match_at p (argv ! (i + 1)) s) p) = argv ! (i + 1))"
proof (intro conjI impI)
  assume "length argv \<le> i + 1"
  then have "parse_loop argv i s = Some (False, call_error_cb EXPECTED_VALUE (argv ! i) s)"
    using assms by (simp add: parse_loop_here)
  with assms(1,2)
  show "parse argv sI =
          Some (False, if error_cb s
                       then s\<lparr> error_calls := error_calls s @ [(EXPECTED_VALUE, argv ! i)] \<rparr>
                       else s)"
    by (simp add: parse_def call_error_cb_def)
next
  assume "i + 1 < length argv"
  with assms show "parse_loop argv i s = parse_loop argv (i + 2) (match_at p (argv ! (i + 1)) s)"
    by (simp add: parse_loop_here)
next
  show "value_s (heap (match_at p (argv ! (i + 1)) s) p) = argv ! (i + 1)"
    by (simp add: match_at_def cell_matched_def)
qed

theorem option_value_or_abort_witness:
  "parse [''prog'', ''--name''] name_option
     = Some (False, name_option\<lparr> program_name := ''prog'', unmatchd_args := [''prog''],
                                 error_calls := [(EXPECTED_VALUE, ''--name'')] \<rparr>)
   \<and> parse_loop [''prog'', ''--name'', ''y''] 1
        (name_option\<lparr> program_name := ''prog'', unmatchd_args := [''prog''] \<rparr>)
     = parse_loop [''prog'', ''--name'', ''y''] 3
        (match_at 0 ''y'' (name_option\<lparr> program_name := ''prog'', unmatchd_args := [''prog''] \<rparr>))"
proof -
  let ?s = "name_option\<lparr> program_name := ''prog'', unmatchd_args := [''prog''] \<rparr>"
  have nh: "\<not> is_help name_option ''prog''" "\<not> is_help ?s ''--name''"
    by (simp_all add: is_help_def)
  have idx: "arguments_map name_option ''prog'' = None" "arguments_map ?s ''--name'' = Some 0"
    "\<not> is_flag (heap ?s 0)" "unmatchd_args name_option = []"
    "error_cb name_option" "error_calls name_option = []"
    by (simp_all add: name_option_def run_defs)
  have r2: "parse_loop [''prog'', ''--name''] 0 (name_option\<lparr> program_name := ''prog'' \<rparr>)
            = parse_loop [''prog'', ''--name''] 1 ?s"
    using nh idx by (simp add: parse_loop_here(3) is_help_def)
  have r3: "parse_loop [''prog'', ''--name'', ''y''] 0 (name_option\<lparr> program_name := ''prog'' \<rparr>)
            = parse_loop [''prog'', ''--name'', ''y''] 1 ?s"
    using nh idx by (simp add: parse_loop_here(3) is_help_def)
  have 1: "parse [''prog'', ''--name''] name_option
     = Some (False, name_option\<lparr> program_name := ''prog'', unmatchd_args := [''prog''],
                                 error_calls := [(EXPECTED_VALUE, ''--name'')] \<rparr>)"
    using option_value_or_abort [OF refl r2, of 0] nh idx by simp
  have 2: "parse_loop [''prog'', ''--name'', ''y''] 1 ?s
     = parse_loop [''prog'', ''--name'', ''y''] 3 (match_at 0 ''y'' ?s)"
    using option_value_or_abort [OF refl r3, of 0] nh idx by (simp add: numeral_3_eq_3)
  from 1 2 show ?thesis by (rule conjI)
qed

text \<open>
  Claim C10: \<open>parse\<close> rolls nothing back when it fails. The state it returns with
  \<open>false\<close> is the state of the scan with, at most, one call of the error callback
  added: after a missing required argument, the state in which the scan of all tokens
  ended; after a missing value, the state in which the scan of the tokens in front of
  the option ended. So the program name is the first token, and the stored values,
  the found states and the unmatched tokens are those of the tokens that were
  processed.
\<close>

theorem failed_parse_keeps_progress:
  assumes "parse argv s = Some (False, s')"
  shows "\<exists>s2 e c.
           s' = call_error_cb e c s2
         \<and> ((e = MISSING_REQUIRED_ARGUMENT
               \<and> parse_loop argv 0 (s\<lparr> program_name := hd argv \<rparr>) = Some (True, s2))
            \<or> (e = EXPECTED_VALUE
               \<and> (\<exists>pre. argv = pre @ [c]
                     \<and> parse_loop pre 0 (s\<lparr> program_name := hd argv \<rparr>) = Some (True, s2))))
         \<and> get_program_name s' = hd argv
         \<and> get_unmatched_args s' = get_unmatched_args s2
         \<and> heap s' = heap s2"
proof -
  from assms obtain a0 rest where argv: "argv = a0 # rest"
    by (cases argv) (simp_all add: parse_def)
  define s0 where "s0 = s\<lparr> program_name := hd argv \<rparr>"
  have name0: "program_name s0 = hd argv" by (simp add: s0_def)
  obtain ok s1 where scan: "parse_loop argv 0 s0 = Some (ok, s1)"
    using parse_loop_total [of argv 0 s0] by auto
  have parse: "parse argv s = (if ok then Some (check_required (argument_defs s1) s1) else Some (False, s1))"
    using scan by (simp add: parse_def argv s0_def)
  show ?thesis
  proof (cases ok)
    case True
    with assms parse have c: "check_required (argument_defs s1) s1 = (False, s')"
      by simp
    then obtain d where d: "s' = call_error_cb MISSING_REQUIRED_ARGUMENT (concated d) s1"
      by (auto simp: check_required_find split: option.splits)
    from parse_loop_frame [OF scan] name0 have "program_name s1 = hd argv" by simp
    with d True scan have
      "s' = call_error_cb MISSING_REQUIRED_ARGUMENT (concated d) s1
       \<and> ((MISSING_REQUIRED_ARGUMENT = MISSING_REQUIRED_ARGUMENT
             \<and> parse_loop argv 0 s0 = Some (True, s1))
          \<or> (MISSING_REQUIRED_ARGUMENT = EXPECTED_VALUE
             \<and> (\<exists>pre. argv = pre @ [concated d] \<and> parse_loop pre 0 s0 = Some (True, s1))))
       \<and> get_program_name s' = hd argv
       \<and> get_unmatched_args s' = get_unmatched_args s1
       \<and> heap s' = heap s1"
      by (simp add: get_program_name_def get_unmatched_args_def)
    then show ?thesis unfolding s0_def by blast
  next
    case False
    with assms parse have s': "s' = s1" by simp
    obtain pre t where snoc: "argv = pre @ [t]"
      using argv by (metis list.distinct(1) rev_exhaust)
    from scan False snoc s' have "parse_loop (pre @ [t]) 0 s0 = Some (False, s')" by simp
    from parse_loop_snoc_fails [OF this] obtain s2
      where s2: "parse_loop pre 0 s0 = Some (True, s2)" "s' = call_error_cb EXPECTED_VALUE t s2"
      by auto
    from parse_loop_frame [OF s2(1)] name0 have "program_name s2 = hd argv" by simp
    with s2 snoc have
      "s' = call_error_cb EXPECTED_VALUE t s2
       \<and> ((EXPECTED_VALUE = MISSING_REQUIRED_ARGUMENT
             \<and> parse_loop argv 0 s0 = Some (True, s2))
          \<or> (EXPECTED_VALUE = EXPECTED_VALUE
             \<and> (\<exists>pre. argv = pre @ [t] \<and> parse_loop pre 0 s0 = Some (True, s2))))
       \<and> get_program_name s' = hd argv
       \<and> get_unmatched_args s' = get_unmatched_args s2
       \<and> heap s' = heap s2"
      by (simp add: get_program_name_def get_unmatched_args_def)
    then show ?thesis unfolding s0_def by blast
  qed
qed

theorem failed_parse_keeps_progress_witness:
  "parse [''prog'', ''x'', ''-b''] two_required
   = Some (False, call_error_cb MISSING_REQUIRED_ARGUMENT ''-a ''
        (match_at 1 ''true''
           (two_required\<lparr> program_name := ''prog'', unmatchd_args := [''prog'', ''x''] \<rparr>)))
   \<and> map_option (\<lambda>(ok, s). (get_program_name s, get_unmatched_args s, req_and_found (heap s 1)))
        (parse [''prog'', ''x'', ''-b''] two_required)
     = Some (''prog'', [''prog'', ''x''], Some True)"
proof -
  have run: "parse [''prog'', ''x'', ''-b''] two_required
   = Some (False, call_error_cb MISSING_REQUIRED_ARGUMENT ''-a ''
        (match_at 1 ''true''
           (two_required\<lparr> program_name := ''prog'', unmatchd_args := [''prog'', ''x''] \<rparr>)))"
    by (simp add: two_required_def match_at_def cell_matched_def run_defs)
  have "req_and_found (heap (match_at 1 ''true''
           (two_required\<lparr> program_name := ''prog'', unmatchd_args := [''prog'', ''x''] \<rparr>)) 1) = Some True"
    by (simp add: two_required_def match_at_def cell_matched_def run_defs)
  then show ?thesis
    using run failed_parse_keeps_progress [OF run]
    by (simp add: get_program_name_def get_unmatched_args_def)
qed



end
